theory Spec2Isabelle
  imports Main "HOL-Library.Word"
begin

unbundle bit_operations_syntax

section \<open>Bytes, lines and numbers\<close>

text \<open>
  The input buffer of a connection (libevent's \<open>evbuffer\<close>) is a sequence of bytes; a
  byte is a \<open>char\<close>. New bytes are appended at the end, the decoder removes bytes at
  the front.
\<close>

definition CR :: char where
  "CR = CHR 0x0D"

definition LF :: char where
  "LF = CHR 0x0A"

definition CRLF :: string where
  "CRLF = [CR, LF]"

text \<open>
  \<open>evbuffer_search_eol\<close> with \<open>EVBUFFER_EOL_CRLF_STRICT\<close>: the position of the first
  carriage-return/line-feed pair of the buffer, if there is one.
\<close>

fun evbuffer_search_eol :: "string \<Rightarrow> nat option" where
  "evbuffer_search_eol (a # b # rest) =
     (if a = CR \<and> b = LF then Some 0
      else map_option Suc (evbuffer_search_eol (b # rest)))"
| "evbuffer_search_eol _ = None"

text \<open>
  \<open>evbuffer_readln(input, &len, EVBUFFER_EOL_CRLF_STRICT)\<close>: without a terminator in the
  buffer it returns NULL and leaves the buffer alone. Otherwise it removes the line and
  its two terminator bytes and returns the line (without the terminator); \<open>len\<close> is the
  length of the returned line. The result here is the line and the buffer that remains.
\<close>

definition evbuffer_readln :: "string \<Rightarrow> (string \<times> string) option" where
  "evbuffer_readln input =
     (case evbuffer_search_eol input of
        None \<Rightarrow> None
      | Some n \<Rightarrow> Some (take n input, drop (n + 2) input))"

text \<open>
  \<open>std::strtoull(p, nullptr, 10)\<close> of the C library, on the bytes from \<open>p\<close> up to the
  NUL that ends the line: white space is skipped, one sign is accepted, the decimal
  digits that follow are the value (none: 0). A value beyond 64 bits gives
  \<open>ULLONG_MAX\<close>; a minus sign negates the value in the unsigned type.
\<close>

definition isspace :: "char \<Rightarrow> bool" where
  "isspace c = (c = CHR '' '' \<or> (9 \<le> (of_char c :: nat) \<and> (of_char c :: nat) \<le> 13))"

definition isdigit :: "char \<Rightarrow> bool" where
  "isdigit c = (48 \<le> (of_char c :: nat) \<and> (of_char c :: nat) \<le> 57)"

definition digit_val :: "char \<Rightarrow> nat" where
  "digit_val c = of_char c - 48"

definition digits_val :: "string \<Rightarrow> nat" where
  "digits_val ds = foldl (\<lambda>acc d. acc * 10 + digit_val d) 0 ds"

definition strtoull :: "string \<Rightarrow> 64 word" where
  "strtoull s =
     (let s1 = dropWhile isspace s;
          neg = (case s1 of c # _ \<Rightarrow> c = CHR ''-'' | [] \<Rightarrow> False);
          s2 = (case s1 of c # r \<Rightarrow> if c = CHR ''-'' \<or> c = CHR ''+'' then r else s1
                | [] \<Rightarrow> s1);
          v = digits_val (takeWhile isdigit s2)
      in if 2 ^ 64 \<le> v then - 1
         else if neg then - (word_of_nat v) else word_of_nat v)"

section \<open>The protocol decoder: \<open>Request::Tokenize\<close>\<close>

datatype ParserState = ArrayLen | BulkLen | BulkData

text \<open>
  Modelled from the spec: the types of the fields \<open>multi_bulk_len_\<close> and \<open>bulk_len_\<close>
  (their declarations, in redis_request.h, are not among the sources). The spec gives the
  pending element count as signed and decremented per element, so \<open>multi_bulk_len_\<close> is a
  64-bit value that is compared as a signed one; \<open>bulk_len_\<close> is a \<open>size_t\<close>.

  The record has the fields of \<open>Request\<close> that the decoder reads and writes, under the
  names of the source without the final underscore.
\<close>

record Request =
  state :: ParserState
  multi_bulk_len :: "64 word"
  bulk_len :: "64 word"
  tokens :: "string list"
  commands :: "string list list"

definition Request_init :: Request where
  "Request_init =
     \<lparr>state = ArrayLen, multi_bulk_len = 0, bulk_len = 0, tokens = [], commands = []\<rparr>"

text \<open>
  What the C++ leaves undefined, or ends with an uncaught exception, is a value.
  \<^item> \<open>OutOfBoundsRead\<close>: \<open>strtoull(line + 1, ...)\<close> on a line of length 0. The buffer
    returned by \<open>evbuffer_readln\<close> has \<open>len + 1\<close> bytes (the line and a NUL), so
    \<open>line + 1\<close> is past its end.
  \<^item> \<open>LengthError\<close>: \<open>std::string(data, bulk_len_)\<close> with a length beyond
    \<open>max_size()\<close>; this is reached only when \<open>bulk_len_ + 2\<close> wraps around.
  \<^item> \<open>InvalidIterator\<close>: a container read through an iterator that is past the end.
  \<^item> \<open>EmptyFront\<close>: \<open>front()\<close> of an empty vector.
\<close>

datatype fault = OutOfBoundsRead | LengthError | InvalidIterator | EmptyFront

text \<open>
  A decoder configuration: the \<open>Request\<close>, the input buffer, and the inbound byte
  counter of the server statistics (\<open>svr_->stats_.IncrInbondBytes\<close> adds to it).
\<close>

type_synonym config = "Request \<times> string \<times> nat"

datatype step = Suspend | Continue config | Fault fault

text \<open>
  One iteration of the \<open>while (true)\<close> loop of \<open>Tokenize\<close>: \<open>Suspend\<close> is a
  \<open>return\<close>, \<open>Continue\<close> a \<open>break\<close> out of the \<open>switch\<close> into the next iteration.
  The length of the buffer is taken to fit a \<open>size_t\<close>.
\<close>

definition Tokenize_step :: "config \<Rightarrow> step" where
  "Tokenize_step c =
     (case c of (r, input, inbound) \<Rightarrow>
       (case state r of
          ArrayLen \<Rightarrow>
            (case evbuffer_readln input of
               None \<Rightarrow> Suspend
             | Some (line, input') \<Rightarrow>
                 Continue
                   (r\<lparr>multi_bulk_len :=
                        (if length line > 0 then strtoull (drop 1 line) else 0),
                      state := BulkLen\<rparr>,
                    input', inbound + length line))
        | BulkLen \<Rightarrow>
            (case evbuffer_readln input of
               None \<Rightarrow> Suspend
             | Some (line, input') \<Rightarrow>
                 if length line = 0 then Fault OutOfBoundsRead
                 else Continue
                   (r\<lparr>bulk_len := strtoull (drop 1 line), state := BulkData\<rparr>,
                    input', inbound + length line))
        | BulkData \<Rightarrow>
            if length input < unat (bulk_len r + 2) then Suspend
            else if 2 ^ 64 \<le> unat (bulk_len r) + 2 then Fault LengthError
            else
              (let tokens' = tokens r @ [take (unat (bulk_len r)) input];
                   input' = drop (unat (bulk_len r + 2)) input;
                   inbound' = inbound + unat (bulk_len r + 2);
                   mbl = multi_bulk_len r - 1
               in if sint mbl \<le> 0
                  then Continue
                    (r\<lparr>multi_bulk_len := mbl, state := ArrayLen,
                       commands := commands r @ [tokens'], tokens := []\<rparr>,
                     input', inbound')
                  else Continue
                    (r\<lparr>multi_bulk_len := mbl, state := BulkLen, tokens := tokens'\<rparr>,
                     input', inbound'))))"

lemma evbuffer_search_eol_bound:
  "evbuffer_search_eol input = Some n \<Longrightarrow> n + 2 \<le> length input"
  by (induction input arbitrary: n rule: evbuffer_search_eol.induct)
     (auto split: if_splits)

lemma evbuffer_readln_shorter:
  "evbuffer_readln input = Some (line, input') \<Longrightarrow> length input' + length line + 2 = length input"
  by (auto simp: evbuffer_readln_def split: option.splits dest: evbuffer_search_eol_bound)

lemma Tokenize_step_shorter:
  "Tokenize_step (r, input, inbound) = Continue (r', input', inbound') \<Longrightarrow>
   length input' < length input"
  by (auto simp: Tokenize_step_def Let_def unat_word_ariths
           split: ParserState.splits option.splits if_splits
           dest: evbuffer_readln_shorter)

function Tokenize :: "config \<Rightarrow> fault + config" where
  "Tokenize c =
     (case Tokenize_step c of
        Suspend \<Rightarrow> Inr c
      | Fault e \<Rightarrow> Inl e
      | Continue c' \<Rightarrow> Tokenize c')"
  by pat_completeness auto
termination
  by (relation "measure (\<lambda>(r, input, inbound). length input)")
     (auto dest: Tokenize_step_shorter)

declare Tokenize.simps [simp del]

section \<open>Sessions, the server and the commands\<close>

datatype Status = OK | NotOK string

text \<open>
  What the dispatcher asks of a command instance (\<open>conn->current_cmd_\<close>): its name, its
  declared arity, its write classification, and the arguments bound by \<open>SetArgs\<close>.
\<close>

record Command =
  Name :: string
  GetArity :: int
  IsWrite :: bool
  Args :: "string list"

text \<open>
  A session. \<open>Output\<close> is the list of messages handed to the outbound buffer, one per
  call of \<open>Reply\<close>; \<open>Input\<close> is the inbound buffer and \<open>req\<close> the decoder the session
  owns. \<open>subscribe_channels\<close> is a sequence: the source appends to it with
  \<open>emplace_back\<close>, walks it with iterators and erases through an iterator. The two time
  stamps of the source are left out.
\<close>

record Connection =
  fd :: int
  flags :: int
  namespace :: string
  IsRepl :: bool
  subscribe_channels :: "string list"
  current_cmd :: "Command option"
  last_cmd :: string
  Output :: "string list"
  Input :: string
  req :: Request

text \<open>
  Modelled from the spec: the server-wide collaborators (server.h, stats.h and config.h are
  not among the sources). The statistics and the slow log are the lists of what was
  submitted to them; the channel registry is the list of the notifications it received,
  each with the channel and the descriptor of the session.
\<close>

datatype registry_event = Subscribed string int | Unsubscribed string int

record 'db Server =
  IsLoading :: bool
  IsSlave :: bool
  slave_readonly :: bool
  inbound_bytes :: nat
  outbound_bytes :: nat
  calls :: "string list"
  latency :: "(nat \<times> string) list"
  slowlog :: "(string list \<times> nat) list"
  registry :: "registry_event list"
  storage :: 'db

type_synonym 'db world = "Connection \<times> 'db Server"

text \<open>
  Modelled from the spec: the value of the flag \<open>kCloseAfterReply\<close> (its declaration, in
  redis_request.h, is not among the sources): one bit of the session's bit mask.
\<close>

definition kCloseAfterReply :: int where
  "kCloseAfterReply = 1"

definition SetFlag :: "int \<Rightarrow> Connection \<Rightarrow> Connection" where
  "SetFlag flag conn = conn\<lparr>flags := flags conn OR flag\<rparr>"

definition IsFlagEnabled :: "int \<Rightarrow> Connection \<Rightarrow> bool" where
  "IsFlagEnabled flag conn = (flags conn AND flag > 0)"

text \<open>
  Modelled from the spec: \<open>Redis::Error\<close> (redis_reply.cc is not among the sources), a
  single line that begins with the error sentinel and carries the message.
\<close>

definition Error :: "string \<Rightarrow> string" where
  "Error msg = ''-'' @ msg @ CRLF"

text \<open>
  Modelled from the spec: \<open>Util::ToLower\<close> (util.cc is not among the sources), which makes
  the comparison of the command name case-insensitive: the lower case of the ASCII
  letters (a capital letter has bit 5 clear, and setting it adds 32).
\<close>

definition tolower :: "char \<Rightarrow> char" where
  "tolower c =
     (if 65 \<le> (of_char c :: nat) \<and> (of_char c :: nat) \<le> 90
      then (case c of Char b0 b1 b2 b3 b4 b5 b6 b7 \<Rightarrow> Char b0 b1 b2 b3 b4 True b6 b7)
      else c)"

definition ToLower :: "string \<Rightarrow> string" where
  "ToLower s = map tolower s"

definition Reply :: "string \<Rightarrow> 'db world \<Rightarrow> 'db world" where
  "Reply msg w =
     (case w of (conn, svr) \<Rightarrow>
        (conn\<lparr>Output := Output conn @ [msg]\<rparr>,
         svr\<lparr>outbound_bytes := outbound_bytes svr + length msg\<rparr>))"

subsection \<open>Channel subscriptions\<close>

definition SubscribeChannel :: "string \<Rightarrow> 'db world \<Rightarrow> 'db world" where
  "SubscribeChannel channel w =
     (case w of (conn, svr) \<Rightarrow>
        if channel \<in> set (subscribe_channels conn) then (conn, svr)
        else (conn\<lparr>subscribe_channels := subscribe_channels conn @ [channel]\<rparr>,
              svr\<lparr>registry := registry svr @ [Subscribed channel (fd conn)]\<rparr>))"

text \<open>
  The loop of \<open>UnSubscribeChannel\<close>, with the iterator of a \<open>std::vector\<close>: the
  iterator is the index \<open>i\<close>, \<open>end()\<close> is the length of the container, \<open>erase(iter)\<close>
  removes the element at \<open>i\<close> and the elements behind it move down; the loop then still
  does \<open>iter++\<close>. The test of the loop is \<open>iter != end()\<close>, so an iterator that has
  stepped over the end goes on and is read.
\<close>

function UnSubscribe_loop :: "string \<Rightarrow> nat \<Rightarrow> 'db world \<Rightarrow> fault + 'db world" where
  "UnSubscribe_loop channel i w =
     (case w of (conn, svr) \<Rightarrow>
        if i = length (subscribe_channels conn) then Inr (conn, svr)
        else if length (subscribe_channels conn) < i then Inl InvalidIterator
        else if subscribe_channels conn ! i = channel
        then UnSubscribe_loop channel (Suc i)
               (conn\<lparr>subscribe_channels :=
                       take i (subscribe_channels conn) @ drop (Suc i) (subscribe_channels conn)\<rparr>,
                svr\<lparr>registry := registry svr @ [Unsubscribed channel (fd conn)]\<rparr>)
        else UnSubscribe_loop channel (Suc i) (conn, svr))"
  by pat_completeness auto
termination
  by (relation "measure (\<lambda>(channel, i, conn, svr). Suc (length (subscribe_channels conn)) - i)")
     auto

declare UnSubscribe_loop.simps [simp del]

definition UnSubscribeChannel :: "string \<Rightarrow> 'db world \<Rightarrow> fault + 'db world" where
  "UnSubscribeChannel channel w = UnSubscribe_loop channel 0 w"

definition UnSubscribeAll :: "'db world \<Rightarrow> 'db world" where
  "UnSubscribeAll w =
     (case w of (conn, svr) \<Rightarrow>
        if subscribe_channels conn = [] then (conn, svr)
        else (conn\<lparr>subscribe_channels := []\<rparr>,
              svr\<lparr>registry := registry svr @
                     map (\<lambda>chan. Unsubscribed chan (fd conn)) (subscribe_channels conn)\<rparr>))"

definition SubscriptionsCount :: "Connection \<Rightarrow> nat" where
  "SubscriptionsCount conn = length (subscribe_channels conn)"

section \<open>The dispatcher: \<open>Request::ExecuteCommands\<close>\<close>

text \<open>
  The command table and the commands themselves (redis_cmd.cc) are collaborators of the
  dispatcher and are its parameters here: \<open>LookupCommand name is_repl\<close> resolves a name
  to a fresh command instance or fails, \<open>Parse\<close> is the argument-parsing step of a
  command, and \<open>Execute\<close> runs it on the server and the session with the reply string of
  the dispatcher; it returns its status, the server, the session and the reply string as
  it left them, and the duration that the dispatcher measures around the call.
\<close>

record 'db Env =
  LookupCommand :: "string \<Rightarrow> bool \<Rightarrow> Command option"
  Parse :: "Command \<Rightarrow> string list \<Rightarrow> Status"
  Execute :: "Command \<Rightarrow> 'db Server \<Rightarrow> Connection \<Rightarrow> string \<Rightarrow>
              Status \<times> 'db Server \<times> Connection \<times> string \<times> nat"

text \<open>\<open>static_cast<int>(cmd_tokens.size())\<close>: the size read as a 32-bit signed value.\<close>

definition int_of_size :: "nat \<Rightarrow> int" where
  "int_of_size n = sint (word_of_nat n :: 32 word)"

text \<open>The condition of the arity check (lines 188 and 189), on the two \<open>int\<close>s.\<close>

definition arity_mismatch :: "int \<Rightarrow> int \<Rightarrow> bool" where
  "arity_mismatch arity ntokens =
     ((arity > 0 \<and> ntokens \<noteq> arity) \<or> (arity < 0 \<and> ntokens < - arity))"

datatype 'a iteration = Break | Next 'a | Crash fault

text \<open>
  The body of the \<open>for\<close> loop for one command of the batch, on the session, the server
  and the local string \<open>reply\<close> (which is declared before the loop and never cleared).
  \<open>Break\<close> is the \<open>break\<close> of the loop; every \<open>continue\<close>, and the end of the body, is
  \<open>Next\<close> with the state reached. The body is written in three parts, last part first:
  \<open>RunCommand\<close> is lines 203 to 218 (the execution and its telemetry), \<open>ParseAndRun\<close>
  lines 193 to 202 (binding and parsing the arguments, the read-only gate), and
  \<open>ExecuteCommand\<close> the whole body, from line 175.
\<close>

definition RunCommand ::
  "'db Env \<Rightarrow> Command \<Rightarrow> 'db world \<times> string \<Rightarrow> ('db world \<times> string) iteration" where
  "RunCommand env cmd st =
     (case st of ((conn, svr), reply) \<Rightarrow>
       (let conn3 = conn\<lparr>last_cmd := Name cmd\<rparr>;
            svr1 = svr\<lparr>calls := calls svr @ [Name cmd]\<rparr>
        in case Execute env cmd svr1 conn3 reply of
             (s, svr2, conn4, reply', duration) \<Rightarrow>
              (let svr3 = svr2\<lparr>slowlog := slowlog svr2 @ [(Args cmd, duration)],
                                latency := latency svr2 @ [(duration, Name cmd)]\<rparr>
               in case s of
                    NotOK msg \<Rightarrow> Next (Reply (Error (''ERR '' @ msg)) (conn4, svr3), reply')
                  | OK \<Rightarrow>
                      if reply' \<noteq> [] then Next (Reply reply' (conn4, svr3), reply')
                      else Next ((conn4, svr3), reply'))))"

definition ParseAndRun ::
  "'db Env \<Rightarrow> Command \<Rightarrow> string list \<Rightarrow> 'db world \<times> string \<Rightarrow>
   ('db world \<times> string) iteration" where
  "ParseAndRun env cmd cmd_tokens st =
     (case st of ((conn, svr), reply) \<Rightarrow>
       (let cmd1 = cmd\<lparr>Args := cmd_tokens\<rparr>;
            conn2 = conn\<lparr>current_cmd := Some cmd1\<rparr>
        in case Parse env cmd1 cmd_tokens of
             NotOK msg \<Rightarrow> Next (Reply (Error msg) (conn2, svr), reply)
           | OK \<Rightarrow>
               if slave_readonly svr \<and> IsSlave svr \<and> IsWrite cmd1
               then Next (Reply (Error ''READONLY You can't write against a read only slave.'')
                            (conn2, svr), reply)
               else RunCommand env cmd1 ((conn2, svr), reply)))"

definition ExecuteCommand ::
  "'db Env \<Rightarrow> string list \<Rightarrow> 'db world \<times> string \<Rightarrow> ('db world \<times> string) iteration" where
  "ExecuteCommand env cmd_tokens st =
     (case st of ((conn, svr), reply) \<Rightarrow>
      if IsFlagEnabled kCloseAfterReply conn then Break
      else
       (case cmd_tokens of
          [] \<Rightarrow> Crash EmptyFront
        | front # _ \<Rightarrow>
          if namespace conn = [] \<and> ToLower front \<noteq> ''auth''
          then Next (Reply (Error ''NOAUTH Authentication required.'') (conn, svr), reply)
          else
           (case LookupCommand env front (IsRepl conn) of
              None \<Rightarrow> Next (Reply (Error ''ERR unknown command'') (conn, svr), reply)
            | Some cmd \<Rightarrow>
               (let conn1 = conn\<lparr>current_cmd := Some cmd\<rparr>;
                    arity = GetArity cmd;
                    ntokens = int_of_size (length cmd_tokens)
                in if arity_mismatch arity ntokens
                   then Next (Reply (Error ''ERR wrong number of arguments'') (conn1, svr), reply)
                   else ParseAndRun env cmd cmd_tokens ((conn1, svr), reply)))))"

fun ExecuteLoop ::
  "'db Env \<Rightarrow> string list list \<Rightarrow> 'db world \<times> string \<Rightarrow> fault + 'db world \<times> string" where
  "ExecuteLoop env [] st = Inr st"
| "ExecuteLoop env (cmd_tokens # rest) st =
     (case ExecuteCommand env cmd_tokens st of
        Break \<Rightarrow> Inr st
      | Crash f \<Rightarrow> Inl f
      | Next st' \<Rightarrow> ExecuteLoop env rest st')"

definition ExecuteCommands :: "'db Env \<Rightarrow> 'db world \<Rightarrow> fault + 'db world" where
  "ExecuteCommands env w =
     (case w of (conn, svr) \<Rightarrow>
        if commands (req conn) = [] then Inr (conn, svr)
        else if IsLoading svr
        then Inr (Reply (Error ''replication in progress'') (conn, svr))
        else
         (case ExecuteLoop env (commands (req conn)) ((conn, svr), []) of
            Inl f \<Rightarrow> Inl f
          | Inr ((conn', svr'), reply) \<Rightarrow>
              Inr (conn'\<lparr>req := (req conn')\<lparr>commands := []\<rparr>\<rparr>, svr')))"

text \<open>
  \<open>Connection::OnRead\<close>: the decoder runs on the inbound buffer, then the dispatcher on
  what the decoder queued. \<open>receive\<close> is a read event: the transport has appended the
  bytes that arrived to the inbound buffer and calls \<open>OnRead\<close>.
\<close>

definition OnRead :: "'db Env \<Rightarrow> 'db world \<Rightarrow> fault + 'db world" where
  "OnRead env w =
     (case w of (conn, svr) \<Rightarrow>
        (case Tokenize (req conn, Input conn, inbound_bytes svr) of
           Inl f \<Rightarrow> Inl f
         | Inr (r, input', inbound') \<Rightarrow>
             ExecuteCommands env
               (conn\<lparr>req := r, Input := input'\<rparr>, svr\<lparr>inbound_bytes := inbound'\<rparr>)))"

definition receive :: "'db Env \<Rightarrow> string \<Rightarrow> 'db world \<Rightarrow> fault + 'db world" where
  "receive env bytes w =
     (case w of (conn, svr) \<Rightarrow> OnRead env (conn\<lparr>Input := Input conn @ bytes\<rparr>, svr))"

section \<open>Concrete inputs of the examples\<close>

text \<open>
  A small command table and a session on a server, the concrete inputs at which the
  theorems below are instantiated: \<open>get\<close> (arity 2, read), \<open>set\<close> (arity 3, write),
  \<open>mget\<close> (arity -2, read) and \<open>auth\<close> (arity 2); every command parses, executes
  successfully and leaves a status reply.
\<close>

definition demo_cmd :: "string \<Rightarrow> int \<Rightarrow> bool \<Rightarrow> Command" where
  "demo_cmd n a w = \<lparr>Name = n, GetArity = a, IsWrite = w, Args = []\<rparr>"

definition demo_lookup :: "string \<Rightarrow> bool \<Rightarrow> Command option" where
  "demo_lookup name is_repl =
     (if ToLower name = ''auth'' then Some (demo_cmd ''auth'' 2 False)
      else if ToLower name = ''get'' then Some (demo_cmd ''get'' 2 False)
      else if ToLower name = ''set'' then Some (demo_cmd ''set'' 3 True)
      else if ToLower name = ''mget'' then Some (demo_cmd ''mget'' (- 2) False)
      else None)"

definition demo_env :: "unit Env" where
  "demo_env =
     \<lparr>LookupCommand = demo_lookup,
      Parse = (\<lambda>cmd toks. OK),
      Execute = (\<lambda>cmd svr conn reply. (OK, svr, conn, ''+OK'' @ CRLF, 5))\<rparr>"

definition demo_conn :: Connection where
  "demo_conn =
     \<lparr>fd = 7, flags = 0, namespace = ''ns'', IsRepl = False, subscribe_channels = [],
      current_cmd = None, last_cmd = [], Output = [], Input = [], req = Request_init\<rparr>"

definition demo_svr :: "unit Server" where
  "demo_svr =
     \<lparr>IsLoading = False, IsSlave = False, slave_readonly = True, inbound_bytes = 0,
      outbound_bytes = 0, calls = [], latency = [], slowlog = [], registry = [],
      storage = ()\<rparr>"

text \<open>The frame of the command \<open>GET a\<close>.\<close>

definition get_a :: string where
  "get_a = ''*2'' @ CRLF @ ''$3'' @ CRLF @ ''GET'' @ CRLF @ ''$1'' @ CRLF @ ''a'' @ CRLF"

section \<open>Deliveries, frames and reachable configurations of the decoder\<close>

text \<open>
  A delivery: the transport appends the bytes that arrived to the input buffer and the
  decoder runs. \<open>feed\<close> is a sequence of deliveries; a fault ends it.
\<close>

definition deliver :: "config \<Rightarrow> string \<Rightarrow> fault + config" where
  "deliver c chunk = (case c of (r, input, inbound) \<Rightarrow> Tokenize (r, input @ chunk, inbound))"

fun feed :: "fault + config \<Rightarrow> string list \<Rightarrow> fault + config" where
  "feed (Inl e) chunks = Inl e"
| "feed (Inr c) [] = Inr c"
| "feed (Inr c) (chunk # chunks) = feed (deliver c chunk) chunks"

text \<open>
  The frame of a command as a client writes it: the array header with the number of
  elements in decimal, then every element as a bulk with its length in decimal. A
  command is well-formed when its sizes fit the 64-bit fields; it may have no element
  (its frame is then the array header \<open>*0\<close> alone).
\<close>

definition digit_char :: "nat \<Rightarrow> char" where
  "digit_char k = ''0123456789'' ! k"

fun dec :: "nat \<Rightarrow> string" where
  "dec n = (if n < 10 then [digit_char n] else dec (n div 10) @ [digit_char (n mod 10)])"

declare dec.simps [simp del]

definition encode_bulk :: "string \<Rightarrow> string" where
  "encode_bulk t = ''$'' @ dec (length t) @ CRLF @ t @ CRLF"

definition encode_command :: "string list \<Rightarrow> string" where
  "encode_command ts = ''*'' @ dec (length ts) @ CRLF @ concat (map encode_bulk ts)"

definition well_formed :: "string list \<Rightarrow> bool" where
  "well_formed ts = (length ts < 2 ^ 63 \<and> list_all (\<lambda>t. length t + 2 < 2 ^ 64) ts)"

text \<open>
  The configurations that the decoder goes through, at the boundaries of the iterations
  of its loop, each with the element count that the array header of the command in
  progress declared (the value that the \<open>ArrayLen\<close> iteration stores). Between two
  iterations, or between two runs of the decoder, new bytes may arrive and the dispatcher
  may clear the batch; the byte counter is shared with other sessions.
\<close>

inductive decoding :: "64 word \<Rightarrow> config \<Rightarrow> bool" where
  start: "decoding d (Request_init, input, inbound)"
| iteration:
    "decoding d (r, input, inbound) \<Longrightarrow>
     Tokenize_step (r, input, inbound) = Continue (r', input', inbound') \<Longrightarrow>
     decoding (if state r = ArrayLen then multi_bulk_len r' else d) (r', input', inbound')"
| arrival: "decoding d (r, input, inbound) \<Longrightarrow> decoding d (r, input @ extra, inbound)"
| dispatch: "decoding d (r, input, inbound) \<Longrightarrow> decoding d (r\<lparr>commands := []\<rparr>, input, inbound')"

text \<open>
  What a client and the operator see of a session after a read event: the replies, the
  names of the commands that were executed (the call counter), and the batch that is
  still queued.
\<close>

definition observe :: "fault + 'db world \<Rightarrow> fault + string list \<times> string list \<times> string list list" where
  "observe res =
     (case res of
        Inl f \<Rightarrow> Inl f
      | Inr (conn, svr) \<Rightarrow> Inr (Output conn, calls svr, commands (req conn)))"

text \<open>The session and the server after a read event (of a run without fault).\<close>

definition after :: "fault + 'db world \<Rightarrow> 'db world \<Rightarrow> 'db world" where
  "after res w = (case res of Inl f \<Rightarrow> w | Inr w' \<Rightarrow> w')"

section \<open>The dispatcher\<close>

lemmas demo_defs =
  demo_cmd_def demo_lookup_def demo_env_def demo_conn_def demo_svr_def get_a_def
  ToLower_def tolower_def IsFlagEnabled_def kCloseAfterReply_def int_of_size_def
  Reply_def Error_def CRLF_def CR_def LF_def

lemmas decoder_defs =
  Tokenize.simps Tokenize_step_def evbuffer_readln_def strtoull_def isspace_def
  isdigit_def digits_val_def digit_val_def Request_init_def

text \<open>
  C4. When the loop of the dispatcher reaches a command (the close-after-reply flag is
  clear) on a session whose namespace is empty, and the lower-cased first token is not
  \<open>auth\<close>, the iteration only replies with the authentication-required error: the
  result does not depend on the command table or on any command (nothing is looked up,
  nothing is executed), the session and the server are as before but for the reply and
  the outbound byte count, and the loop goes on with the rest of the batch.
\<close>

theorem auth_gate:
  assumes "\<not> IsFlagEnabled kCloseAfterReply conn"
    and "namespace conn = []"
    and "ToLower front \<noteq> ''auth''"
  shows "ExecuteCommand env (front # args) ((conn, svr), reply) =
           Next (Reply (Error ''NOAUTH Authentication required.'') (conn, svr), reply)
         \<and> ExecuteLoop env ((front # args) # rest) ((conn, svr), reply) =
           ExecuteLoop env rest
             (Reply (Error ''NOAUTH Authentication required.'') (conn, svr), reply)
         \<and> Reply (Error ''NOAUTH Authentication required.'') (conn, svr) =
           (conn\<lparr>Output := Output conn @ [Error ''NOAUTH Authentication required.'']\<rparr>,
            svr\<lparr>outbound_bytes :=
                  outbound_bytes svr + length (Error ''NOAUTH Authentication required.'')\<rparr>)"
  using assms by (simp add: ExecuteCommand_def Reply_def)

theorem auth_gate_witness:
  "ExecuteLoop demo_env [[''GET'', ''foo''], [''Set'', ''k'', ''v'']]
     ((demo_conn\<lparr>namespace := []\<rparr>, demo_svr), []) =
   Inr ((demo_conn\<lparr>namespace := [],
                    Output := [''-NOAUTH Authentication required.'' @ CRLF,
                               ''-NOAUTH Authentication required.'' @ CRLF]\<rparr>,
         demo_svr\<lparr>outbound_bytes := 68\<rparr>), [])"
proof -
  let ?c = "demo_conn\<lparr>namespace := []\<rparr>"
  let ?w = "Reply (Error ''NOAUTH Authentication required.'') (?c, demo_svr)"
  have flag: "\<not> IsFlagEnabled kCloseAfterReply ?c"
    by (simp add: demo_defs)
  have ns: "namespace ?c = []"
    by simp
  have name: "ToLower ''GET'' \<noteq> ''auth''"
    by (simp add: demo_defs)
  have "ExecuteLoop demo_env [[''GET'', ''foo''], [''Set'', ''k'', ''v'']] ((?c, demo_svr), []) =
        ExecuteLoop demo_env [[''Set'', ''k'', ''v'']] (?w, [])"
    using auth_gate [OF flag ns name, of demo_env "[''foo'']" demo_svr "[]" "[[''Set'', ''k'', ''v'']]"]
    by (simp del: ExecuteLoop.simps)
  then show ?thesis
    by (simp add: ExecuteCommand_def demo_defs)
qed

text \<open>
  C5. For a command that the table resolves, with declared arity \<open>a\<close> and token count
  \<open>t\<close> (the \<open>int\<close> the dispatcher computes from the size of the command): if \<open>a > 0\<close>
  the command proceeds exactly when \<open>t = a\<close>, if \<open>a < 0\<close> exactly when \<open>t \<ge> |a|\<close>.
  To proceed is to have the arguments bound and parsed: a parse failure is answered
  with the message of the parser, a parsed write command on a read-only replica with
  the read-only error, and any other parsed command is executed. On a mismatch the
  iteration appends the wrong-number-of-arguments error to the output of the session
  and counts its bytes; nothing else changes but the command bound to the session (no
  call is counted, nothing is executed), and the loop goes on with the rest of the
  batch.
\<close>

theorem arity_enforcement:
  assumes "\<not> IsFlagEnabled kCloseAfterReply conn"
    and "namespace conn \<noteq> [] \<or> ToLower front = ''auth''"
    and "LookupCommand env front (IsRepl conn) = Some cmd"
    and "a = GetArity cmd"
    and "t = int_of_size (length (front # args))"
    and "wrong = Error ''ERR wrong number of arguments''"
    and "after_reject =
           (conn\<lparr>current_cmd := Some cmd, Output := Output conn @ [wrong]\<rparr>,
            svr\<lparr>outbound_bytes := outbound_bytes svr + length wrong\<rparr>)"
    and "cmd1 = cmd\<lparr>Args := front # args\<rparr>"
    and "readonly = Error ''READONLY You can't write against a read only slave.''"
    and "proceeds =
           (case Parse env cmd1 (front # args) of
              NotOK msg \<Rightarrow>
                Next ((conn\<lparr>current_cmd := Some cmd1, Output := Output conn @ [Error msg]\<rparr>,
                       svr\<lparr>outbound_bytes := outbound_bytes svr + length (Error msg)\<rparr>),
                      reply)
            | OK \<Rightarrow>
                if slave_readonly svr \<and> IsSlave svr \<and> IsWrite cmd
                then Next ((conn\<lparr>current_cmd := Some cmd1,
                                 Output := Output conn @ [readonly]\<rparr>,
                            svr\<lparr>outbound_bytes := outbound_bytes svr + length readonly\<rparr>),
                           reply)
                else RunCommand env cmd1 ((conn\<lparr>current_cmd := Some cmd1\<rparr>, svr), reply))"
  shows "(0 < a \<longrightarrow>
            ExecuteCommand env (front # args) ((conn, svr), reply) =
              (if t = a then proceeds else Next (after_reject, reply)))
         \<and> (a < 0 \<longrightarrow>
            ExecuteCommand env (front # args) ((conn, svr), reply) =
              (if \<bar>a\<bar> \<le> t then proceeds else Next (after_reject, reply)))
         \<and> ((0 < a \<and> t \<noteq> a) \<or> (a < 0 \<and> t < \<bar>a\<bar>) \<longrightarrow>
            ExecuteLoop env ((front # args) # rest) ((conn, svr), reply) =
              ExecuteLoop env rest (after_reject, reply))"
proof -
  let ?conn1 = "conn\<lparr>current_cmd := Some cmd\<rparr>"
  let ?EC = "ExecuteCommand env (front # args) ((conn, svr), reply)"
  have body: "?EC =
      (if arity_mismatch a t then Next (Reply wrong (?conn1, svr), reply)
       else ParseAndRun env cmd (front # args) ((?conn1, svr), reply))"
    using assms(1-6) by (auto simp: ExecuteCommand_def Let_def)
  have reject: "Reply wrong (?conn1, svr) = after_reject"
    by (simp add: Reply_def assms(7))
  have parse: "ParseAndRun env cmd (front # args) ((?conn1, svr), reply) = proceeds"
    by (auto simp: ParseAndRun_def Reply_def Let_def assms(8-10) split: Status.splits)
  have result: "?EC = (if arity_mismatch a t then Next (after_reject, reply) else proceeds)"
    by (simp only: body reject parse)
  have positive: "?EC = (if t = a then proceeds else Next (after_reject, reply))" if "0 < a"
    using that by (simp add: result arity_mismatch_def)
  have negative: "?EC = (if \<bar>a\<bar> \<le> t then proceeds else Next (after_reject, reply))" if "a < 0"
    using that by (auto simp: result arity_mismatch_def)
  have continue: "ExecuteLoop env ((front # args) # rest) ((conn, svr), reply) =
                  ExecuteLoop env rest (after_reject, reply)"
    if "(0 < a \<and> t \<noteq> a) \<or> (a < 0 \<and> t < \<bar>a\<bar>)"
  proof -
    from that have "arity_mismatch a t"
      by (auto simp: arity_mismatch_def)
    then have "?EC = Next (after_reject, reply)"
      by (simp add: result)
    then show ?thesis
      by simp
  qed
  from positive negative continue show ?thesis
    by blast
qed

theorem arity_enforcement_witness:
  "ExecuteLoop demo_env
     [[''set'', ''k''], [''set'', ''k'', ''v''], [''set'', ''k'', ''v'', ''x''],
      [''mget''], [''mget'', ''a''], [''mget'', ''a'', ''b''], [''mget'', ''a'', ''b'', ''c'']]
     ((demo_conn, demo_svr), []) =
   Inr ((demo_conn\<lparr>current_cmd :=
                      Some (demo_cmd ''mget'' (- 2) False\<lparr>Args := [''mget'', ''a'', ''b'', ''c'']\<rparr>),
                    last_cmd := ''mget'',
                    Output := [''-ERR wrong number of arguments'' @ CRLF, ''+OK'' @ CRLF,
                               ''-ERR wrong number of arguments'' @ CRLF,
                               ''-ERR wrong number of arguments'' @ CRLF,
                               ''+OK'' @ CRLF, ''+OK'' @ CRLF, ''+OK'' @ CRLF]\<rparr>,
         demo_svr\<lparr>outbound_bytes := 116,
                  calls := [''set'', ''mget'', ''mget'', ''mget''],
                  latency := [(5, ''set''), (5, ''mget''), (5, ''mget''), (5, ''mget'')],
                  slowlog := [([''set'', ''k'', ''v''], 5), ([''mget'', ''a''], 5),
                              ([''mget'', ''a'', ''b''], 5),
                              ([''mget'', ''a'', ''b'', ''c''], 5)]\<rparr>),
        ''+OK'' @ CRLF)"
proof -
  let ?rest = "[[''set'', ''k'', ''v''], [''set'', ''k'', ''v'', ''x''],
      [''mget''], [''mget'', ''a''], [''mget'', ''a'', ''b''], [''mget'', ''a'', ''b'', ''c'']]"
  let ?wrong = "Error ''ERR wrong number of arguments''"
  let ?w = "(demo_conn\<lparr>current_cmd := Some (demo_cmd ''set'' 3 True),
                       Output := Output demo_conn @ [?wrong]\<rparr>,
             demo_svr\<lparr>outbound_bytes := outbound_bytes demo_svr + length ?wrong\<rparr>)"
  have flag: "\<not> IsFlagEnabled kCloseAfterReply demo_conn"
    by (simp add: demo_defs)
  have ns: "namespace demo_conn \<noteq> [] \<or> ToLower ''set'' = ''auth''"
    by (simp add: demo_defs)
  have set: "LookupCommand demo_env ''set'' (IsRepl demo_conn) = Some (demo_cmd ''set'' 3 True)"
    by (simp add: demo_defs)
  have mismatch: "(0 < GetArity (demo_cmd ''set'' 3 True)
                   \<and> int_of_size (length [''set'', ''k'']) \<noteq> GetArity (demo_cmd ''set'' 3 True))
                  \<or> (GetArity (demo_cmd ''set'' 3 True) < 0
                   \<and> int_of_size (length [''set'', ''k''])
                       < \<bar>GetArity (demo_cmd ''set'' 3 True)\<bar>)"
    by (simp add: demo_defs)
  note rule = arity_enforcement [OF flag ns set refl refl refl refl refl refl refl,
      of "[''k'']" demo_svr "[]" ?rest]
  from rule [THEN conjunct2, THEN conjunct2, rule_format, OF mismatch]
  have "ExecuteLoop demo_env ([''set'', ''k''] # ?rest) ((demo_conn, demo_svr), []) =
        ExecuteLoop demo_env ?rest (?w, [])" .
  then show ?thesis
    by (simp add: ExecuteCommand_def ParseAndRun_def RunCommand_def arity_mismatch_def demo_defs)
qed



section \<open>The decoder\<close>

subsection \<open>Lines\<close>

lemma evbuffer_search_eol_append:
  "evbuffer_search_eol buf = Some n \<Longrightarrow> evbuffer_search_eol (buf @ extra) = Some n"
proof (induction buf arbitrary: n rule: evbuffer_search_eol.induct)
  case (1 a b rest)
  then show ?case by (auto split: if_splits)
qed simp_all

lemma evbuffer_readln_append:
  assumes "evbuffer_readln buf = Some (line, rest)"
  shows "evbuffer_readln (buf @ extra) = Some (line, rest @ extra)"
proof -
  from assms obtain n where n: "evbuffer_search_eol buf = Some n"
    and line: "line = take n buf" and rest: "rest = drop (n + 2) buf"
    by (auto simp: evbuffer_readln_def split: option.splits)
  from n have "n + 2 \<le> length buf"
    by (rule evbuffer_search_eol_bound)
  with n line rest show ?thesis
    by (simp add: evbuffer_readln_def evbuffer_search_eol_append)
qed

lemma evbuffer_search_eol_line:
  "CR \<notin> set h \<Longrightarrow> evbuffer_search_eol (h @ CR # LF # rest) = Some (length h)"
proof (induction h)
  case Nil
  then show ?case by simp
next
  case (Cons a h)
  then show ?case by (cases h) auto
qed

lemma evbuffer_readln_line:
  "CR \<notin> set h \<Longrightarrow> evbuffer_readln (h @ CRLF @ rest) = Some (h, rest)"
  by (simp add: evbuffer_readln_def CRLF_def evbuffer_search_eol_line)

subsection \<open>More input behind a run of the decoder\<close>

lemma Tokenize_step_append_Continue:
  assumes "Tokenize_step (r, buf, n) = Continue (r', buf', n')"
  shows "Tokenize_step (r, buf @ extra, n) = Continue (r', buf' @ extra, n')"
proof (cases "state r")
  case ArrayLen
  with assms obtain line rest where ln: "evbuffer_readln buf = Some (line, rest)"
    by (auto simp: Tokenize_step_def split: option.splits)
  then have "evbuffer_readln (buf @ extra) = Some (line, rest @ extra)"
    by (rule evbuffer_readln_append)
  with assms ArrayLen ln show ?thesis
    by (simp add: Tokenize_step_def)
next
  case BulkLen
  with assms obtain line rest where ln: "evbuffer_readln buf = Some (line, rest)"
    by (auto simp: Tokenize_step_def split: option.splits)
  then have "evbuffer_readln (buf @ extra) = Some (line, rest @ extra)"
    by (rule evbuffer_readln_append)
  with assms BulkLen ln show ?thesis
    by (simp add: Tokenize_step_def split: if_splits)
next
  case BulkData
  with assms have enough: "unat (bulk_len r + 2) \<le> length buf"
    and nowrap: "unat (bulk_len r) + 2 < 2 ^ 64"
    by (auto simp: Tokenize_step_def split: if_splits)
  from nowrap have "unat (bulk_len r + 2) = unat (bulk_len r) + 2"
    by (simp add: unat_word_ariths)
  with enough have "unat (bulk_len r) \<le> length buf"
    by simp
  with assms BulkData enough nowrap show ?thesis
    by (auto simp: Tokenize_step_def Let_def split: if_splits)
qed

lemma Tokenize_step_append_Fault:
  assumes "Tokenize_step (r, buf, n) = Fault e"
  shows "Tokenize_step (r, buf @ extra, n) = Fault e"
proof (cases "state r")
  case ArrayLen
  with assms show ?thesis
    by (auto simp: Tokenize_step_def split: option.splits)
next
  case BulkLen
  with assms obtain line rest where ln: "evbuffer_readln buf = Some (line, rest)"
    by (auto simp: Tokenize_step_def split: option.splits)
  then have "evbuffer_readln (buf @ extra) = Some (line, rest @ extra)"
    by (rule evbuffer_readln_append)
  with assms BulkLen ln show ?thesis
    by (simp add: Tokenize_step_def split: if_splits)
next
  case BulkData
  with assms show ?thesis
    by (auto simp: Tokenize_step_def Let_def split: if_splits)
qed

lemma Tokenize_append:
  "(\<forall>r' buf' n'. Tokenize (r, buf, n) = Inr (r', buf', n') \<longrightarrow>
      Tokenize (r, buf @ extra, n) = Tokenize (r', buf' @ extra, n'))
   \<and> (\<forall>e. Tokenize (r, buf, n) = Inl e \<longrightarrow> Tokenize (r, buf @ extra, n) = Inl e)"
proof (induction "(r, buf, n)" arbitrary: r buf n rule: Tokenize.induct)
  case 1
  show ?case
  proof (cases "Tokenize_step (r, buf, n)")
    case Suspend
    then show ?thesis
      by (simp add: Tokenize.simps [of "(r, buf, n)"])
  next
    case (Continue c')
    obtain r1 buf1 n1 where c': "c' = (r1, buf1, n1)"
      by (cases c')
    from Continue c' have more: "Tokenize_step (r, buf @ extra, n) = Continue (r1, buf1 @ extra, n1)"
      by (simp add: Tokenize_step_append_Continue)
    from "1" [of r1 buf1 n1] Continue c' more show ?thesis
      by (simp add: Tokenize.simps [of "(r, buf, n)"] Tokenize.simps [of "(r, buf @ extra, n)"])
  next
    case (Fault e)
    then have "Tokenize_step (r, buf @ extra, n) = Fault e"
      by (rule Tokenize_step_append_Fault)
    with Fault show ?thesis
      by (simp add: Tokenize.simps [of "(r, buf, n)"] Tokenize.simps [of "(r, buf @ extra, n)"])
  qed
qed

lemma Tokenize_append_Inr:
  "Tokenize (r, buf, n) = Inr (r', buf', n') \<Longrightarrow>
   Tokenize (r, buf @ extra, n) = Tokenize (r', buf' @ extra, n')"
  using Tokenize_append by blast

lemma Tokenize_append_Inl:
  "Tokenize (r, buf, n) = Inl e \<Longrightarrow> Tokenize (r, buf @ extra, n) = Inl e"
  using Tokenize_append by blast

lemma feed_Tokenize:
  "feed (Tokenize (r, buf, n)) chunks = Tokenize (r, buf @ concat chunks, n)"
proof (induction chunks arbitrary: r buf n)
  case Nil
  show ?case by (cases "Tokenize (r, buf, n)") simp_all
next
  case (Cons chunk chunks)
  show ?case
  proof (cases "Tokenize (r, buf, n)")
    case (Inl e)
    then show ?thesis
      by (simp add: Tokenize_append_Inl)
  next
    case (Inr c)
    obtain r' buf' n' where c: "c = (r', buf', n')"
      by (cases c)
    have "feed (Tokenize (r, buf, n)) (chunk # chunks) = feed (Tokenize (r', buf' @ chunk, n')) chunks"
      using Inr c by (simp add: deliver_def)
    also have "\<dots> = Tokenize (r', (buf' @ chunk) @ concat chunks, n')"
      by (rule Cons.IH)
    also have "\<dots> = Tokenize (r, buf @ chunk @ concat chunks, n)"
      using Tokenize_append_Inr [of r buf n r' buf' n' "chunk @ concat chunks"] Inr c
      by simp
    finally show ?thesis by simp
  qed
qed

lemma Tokenize_init_empty:
  "Tokenize (Request_init, [], n) = Inr (Request_init, [], n)"
  by (simp add: Tokenize.simps Tokenize_step_def Request_init_def evbuffer_readln_def)

lemma feed_init:
  "feed (Inr (Request_init, [], n)) chunks = Tokenize (Request_init, concat chunks, n)"
  using feed_Tokenize [of Request_init "[]" n chunks]
  by (simp add: Tokenize_init_empty)

subsection \<open>Decimal numbers\<close>

lemma digit_char_cases:
  assumes "k < 10"
  shows "k = 0 \<or> k = 1 \<or> k = 2 \<or> k = 3 \<or> k = 4 \<or> k = 5 \<or> k = 6 \<or> k = 7 \<or> k = 8
         \<or> k = (9::nat)"
  using assms by arith

lemma isdigit_char_of: "k < 10 \<Longrightarrow> isdigit (digit_char k)"
  using digit_char_cases [of k] by (auto simp: isdigit_def digit_char_def)

lemma digit_val_char_of: "k < 10 \<Longrightarrow> digit_val (digit_char k) = k"
  using digit_char_cases [of k] by (auto simp: digit_val_def digit_char_def)

lemma unat_of_nat64: "n < 2 ^ 64 \<Longrightarrow> unat (word_of_nat n :: 64 word) = n"
  by (simp add: unat_of_nat)

lemma sint_of_nat64: "n < 2 ^ 63 \<Longrightarrow> sint (word_of_nat n :: 64 word) = int n"
  by (simp add: signed_of_nat signed_take_bit_int_eq_self)

lemma isdigit_plain:
  "isdigit c \<Longrightarrow> c \<noteq> CR \<and> \<not> isspace c \<and> c \<noteq> CHR ''-'' \<and> c \<noteq> CHR ''+''"
  by (auto simp: isdigit_def isspace_def CR_def)

lemma dec_digits: "list_all isdigit (dec n)"
proof (induction n rule: dec.induct)
  case (1 n)
  then show ?case
    by (subst dec.simps) (simp add: isdigit_char_of)
qed

lemma dec_not_empty: "dec n \<noteq> []"
  by (subst dec.simps) simp

lemma digits_val_snoc: "digits_val (ds @ [d]) = digits_val ds * 10 + digit_val d"
  by (simp add: digits_val_def)

lemma digits_val_dec: "digits_val (dec n) = n"
proof (induction n rule: dec.induct)
  case (1 n)
  show ?case
  proof (cases "n < 10")
    case True
    then show ?thesis
      by (subst dec.simps) (simp add: digits_val_def digit_val_char_of)
  next
    case False
    with "1" have "digits_val (dec (n div 10)) = n div 10"
      by simp
    with False show ?thesis
      by (subst dec.simps) (simp add: digits_val_snoc digit_val_char_of)
  qed
qed

lemma strtoull_dec:
  assumes "n < 2 ^ 64"
  shows "strtoull (dec n) = word_of_nat n"
proof -
  obtain c cs where ccs: "dec n = c # cs"
    using dec_not_empty [of n] by (cases "dec n") auto
  have all: "list_all isdigit (c # cs)"
    using dec_digits [of n] ccs by simp
  then have c: "\<not> isspace c" "c \<noteq> CHR ''-''" "c \<noteq> CHR ''+''"
    using isdigit_plain [of c] by simp_all
  have "takeWhile isdigit (c # cs) = c # cs"
    using all by (simp add: list_all_iff)
  moreover have "digits_val (c # cs) = n"
    using digits_val_dec [of n] ccs by simp
  ultimately show ?thesis
    using assms c ccs by (simp add: strtoull_def)
qed

lemma CR_notin_dec: "CR \<notin> set (dec n)"
  using dec_digits [of n] isdigit_plain by (auto simp: list_all_iff)

subsection \<open>Decoding frames\<close>

lemma Tokenize_Continue:
  "Tokenize_step c = Continue c' \<Longrightarrow> Tokenize c = Tokenize c'"
  by (simp add: Tokenize.simps [of c])

lemma Tokenize_Suspend:
  "Tokenize_step c = Suspend \<Longrightarrow> Tokenize c = Inr c"
  by (simp add: Tokenize.simps [of c])

lemma array_header_step:
  assumes "state r = ArrayLen" and "k < 2 ^ 64"
  shows "Tokenize_step (r, ''*'' @ dec k @ CRLF @ rest, n) =
         Continue (r\<lparr>multi_bulk_len := word_of_nat k, state := BulkLen\<rparr>, rest,
                   n + (1 + length (dec k)))"
proof -
  have "CR \<notin> set (''*'' @ dec k)"
    using CR_notin_dec [of k] by (simp add: CR_def)
  then have "evbuffer_readln ((''*'' @ dec k) @ CRLF @ rest) = Some (''*'' @ dec k, rest)"
    by (rule evbuffer_readln_line)
  with assms show ?thesis
    by (simp add: Tokenize_step_def strtoull_dec)
qed

lemma bulk_header_step:
  assumes "state r = BulkLen" and "k < 2 ^ 64"
  shows "Tokenize_step (r, ''$'' @ dec k @ CRLF @ rest, n) =
         Continue (r\<lparr>bulk_len := word_of_nat k, state := BulkData\<rparr>, rest,
                   n + (1 + length (dec k)))"
proof -
  have "CR \<notin> set (''$'' @ dec k)"
    using CR_notin_dec [of k] by (simp add: CR_def)
  then have "evbuffer_readln ((''$'' @ dec k) @ CRLF @ rest) = Some (''$'' @ dec k, rest)"
    by (rule evbuffer_readln_line)
  with assms show ?thesis
    by (simp add: Tokenize_step_def strtoull_dec)
qed

lemma bulk_data_step:
  assumes "state r = BulkData" and "bulk_len r = word_of_nat (length t)"
    and "length t + 2 < 2 ^ 64"
  shows "Tokenize_step (r, t @ CRLF @ rest, n) =
         Continue
           (if sint (multi_bulk_len r - 1) \<le> 0
            then r\<lparr>multi_bulk_len := multi_bulk_len r - 1, state := ArrayLen,
                   commands := commands r @ [tokens r @ [t]], tokens := []\<rparr>
            else r\<lparr>multi_bulk_len := multi_bulk_len r - 1, state := BulkLen,
                   tokens := tokens r @ [t]\<rparr>,
            rest, n + (length t + 2))"
proof -
  from assms(3) have len: "unat (word_of_nat (length t) :: 64 word) = length t"
    by (simp add: unat_of_nat64)
  from assms(3) have "unat (word_of_nat (length t) + 2 :: 64 word) = length t + 2"
    by (simp add: unat_word_ariths len)
  with assms len show ?thesis
    by (simp add: Tokenize_step_def Let_def CRLF_def)
qed

lemma Tokenize_bulk:
  assumes "state r = BulkLen" and "length t + 2 < 2 ^ 64"
  shows "Tokenize (r, encode_bulk t @ rest, n) =
         Tokenize
           (if sint (multi_bulk_len r - 1) \<le> 0
            then r\<lparr>bulk_len := word_of_nat (length t), multi_bulk_len := multi_bulk_len r - 1,
                   state := ArrayLen, commands := commands r @ [tokens r @ [t]], tokens := []\<rparr>
            else r\<lparr>bulk_len := word_of_nat (length t), multi_bulk_len := multi_bulk_len r - 1,
                   state := BulkLen, tokens := tokens r @ [t]\<rparr>,
            rest, n + (1 + length (dec (length t))) + (length t + 2))"
proof -
  let ?r1 = "r\<lparr>bulk_len := word_of_nat (length t), state := BulkData\<rparr>"
  have "Tokenize (r, encode_bulk t @ rest, n) =
        Tokenize (?r1, t @ CRLF @ rest, n + (1 + length (dec (length t))))"
    using bulk_header_step [OF assms(1), of "length t" "t @ CRLF @ rest" n] assms(2)
    by (simp add: encode_bulk_def Tokenize_Continue)
  also have "\<dots> =
        Tokenize
           (if sint (multi_bulk_len ?r1 - 1) \<le> 0
            then ?r1\<lparr>multi_bulk_len := multi_bulk_len ?r1 - 1, state := ArrayLen,
                   commands := commands ?r1 @ [tokens ?r1 @ [t]], tokens := []\<rparr>
            else ?r1\<lparr>multi_bulk_len := multi_bulk_len ?r1 - 1, state := BulkLen,
                   tokens := tokens ?r1 @ [t]\<rparr>,
            rest, n + (1 + length (dec (length t))) + (length t + 2))"
    by (rule Tokenize_Continue, rule bulk_data_step) (use assms(2) in simp_all)
  finally show ?thesis
    by simp
qed

lemma Tokenize_bulks:
  assumes "state r = BulkLen" and "ts \<noteq> []" and "length ts < 2 ^ 63"
    and "multi_bulk_len r = word_of_nat (length ts)"
    and "list_all (\<lambda>t. length t + 2 < 2 ^ 64) ts"
  shows "\<exists>r' n'. Tokenize (r, concat (map encode_bulk ts) @ rest, n) = Tokenize (r', rest, n')
           \<and> state r' = ArrayLen \<and> tokens r' = []
           \<and> commands r' = commands r @ [tokens r @ ts]"
  using assms
proof (induction ts arbitrary: r n)
  case Nil
  then show ?case by simp
next
  case (Cons t ts)
  from Cons.prems have t: "length t + 2 < 2 ^ 64"
    by simp
  show ?case
  proof (cases "ts = []")
    case True
    with Cons.prems have "multi_bulk_len r - 1 = 0"
      by simp
    with True Tokenize_bulk [OF Cons.prems(1) t, of rest n] show ?thesis
      by auto
  next
    case False
    let ?r1 = "r\<lparr>bulk_len := word_of_nat (length t), multi_bulk_len := multi_bulk_len r - 1,
                   state := BulkLen, tokens := tokens r @ [t]\<rparr>"
    from Cons.prems have m: "multi_bulk_len r - 1 = word_of_nat (length ts)"
      by simp
    from False Cons.prems have pos: "0 < length ts" "length ts < 2 ^ 63"
      by simp_all
    then have "sint (word_of_nat (length ts) :: 64 word) = int (length ts)"
      by (simp add: sint_of_nat64)
    with pos m have cont: "\<not> sint (multi_bulk_len r - 1) \<le> 0"
      by simp
    have step: "Tokenize (r, concat (map encode_bulk (t # ts)) @ rest, n) =
          Tokenize (?r1, concat (map encode_bulk ts) @ rest,
                    n + (1 + length (dec (length t))) + (length t + 2))"
      using Tokenize_bulk [OF Cons.prems(1) t, of "concat (map encode_bulk ts) @ rest" n] cont
      by simp
    have "\<exists>r' n'. Tokenize (?r1, concat (map encode_bulk ts) @ rest,
                     n + (1 + length (dec (length t))) + (length t + 2)) = Tokenize (r', rest, n')
           \<and> state r' = ArrayLen \<and> tokens r' = []
           \<and> commands r' = commands ?r1 @ [tokens ?r1 @ ts]"
      using False pos m Cons.prems by (intro Cons.IH) simp_all
    with step show ?thesis
      by auto
  qed
qed

lemma Tokenize_command:
  assumes "state r = ArrayLen" and "well_formed ts" and "ts \<noteq> []"
  shows "\<exists>r' n'. Tokenize (r, encode_command ts @ rest, n) = Tokenize (r', rest, n')
           \<and> state r' = ArrayLen \<and> tokens r' = []
           \<and> commands r' = commands r @ [tokens r @ ts]"
proof -
  let ?r1 = "r\<lparr>multi_bulk_len := word_of_nat (length ts), state := BulkLen\<rparr>"
  from assms(2) assms(3) have wf: "ts \<noteq> []" "length ts < 2 ^ 63"
    "list_all (\<lambda>t. length t + 2 < 2 ^ 64) ts"
    by (simp_all add: well_formed_def)
  from wf(2) have "length ts < 2 ^ 64"
    by simp
  from array_header_step [OF assms(1) this, of "concat (map encode_bulk ts) @ rest" n]
  have "Tokenize (r, encode_command ts @ rest, n) =
        Tokenize (?r1, concat (map encode_bulk ts) @ rest, n + (1 + length (dec (length ts))))"
    by (simp add: encode_command_def Tokenize_Continue)
  moreover have "\<exists>r' n'. Tokenize (?r1, concat (map encode_bulk ts) @ rest,
                    n + (1 + length (dec (length ts)))) = Tokenize (r', rest, n')
           \<and> state r' = ArrayLen \<and> tokens r' = []
           \<and> commands r' = commands ?r1 @ [tokens ?r1 @ ts]"
    using wf by (intro Tokenize_bulks) simp_all
  ultimately show ?thesis
    by auto
qed

lemma Tokenize_batch:
  assumes "state r = ArrayLen" and "tokens r = []" and "list_all well_formed cmds"
    and "[] \<notin> set cmds"
  shows "\<exists>r' n'. Tokenize (r, concat (map encode_command cmds) @ rest, n) = Tokenize (r', rest, n')
           \<and> state r' = ArrayLen \<and> tokens r' = []
           \<and> commands r' = commands r @ cmds"
  using assms
proof (induction cmds arbitrary: r n)
  case Nil
  then show ?case by auto
next
  case (Cons ts cmds)
  from Cons.prems have ts: "well_formed ts" "ts \<noteq> []"
    by auto
  from Tokenize_command [OF Cons.prems(1) ts, of "concat (map encode_command cmds) @ rest" n]
  obtain r1 n1 where
    first: "Tokenize (r, concat (map encode_command (ts # cmds)) @ rest, n) =
            Tokenize (r1, concat (map encode_command cmds) @ rest, n1)"
    and r1: "state r1 = ArrayLen" "tokens r1 = []" "commands r1 = commands r @ [tokens r @ ts]"
    by auto
  from Cons.prems have cmds: "list_all well_formed cmds" "[] \<notin> set cmds"
    by auto
  from Cons.IH [OF r1(1) r1(2) cmds, of n1]
  obtain r' n' where
    "Tokenize (r1, concat (map encode_command cmds) @ rest, n1) = Tokenize (r', rest, n')"
    "state r' = ArrayLen" "tokens r' = []" "commands r' = commands r1 @ cmds"
    by auto
  with first r1 Cons.prems(2) show ?case
    by auto
qed

lemma Tokenize_ArrayLen_empty:
  "state r = ArrayLen \<Longrightarrow> Tokenize (r, [], n) = Inr (r, [], n)"
  by (rule Tokenize_Suspend) (simp add: Tokenize_step_def evbuffer_readln_def)


subsection \<open>Chunk boundaries\<close>

text \<open>
  C3, as stated, fails when a frame declares no element. The frame of the command
  without elements, followed by the frame of \<open>PING\<close>, is a sequence of two well-formed
  frames; the run on it ends in the bulk-header state with the one command \<open>[$]\<close> in the
  batch: no command for the first frame, and the second frame is taken apart.
\<close>

theorem zero_count_frame_counterexample:
  "well_formed [] \<and> well_formed [''PING'']
   \<and> Tokenize (Request_init, concat (map encode_command [[], [''PING'']]), 0) =
     Inr (\<lparr>state = BulkLen, multi_bulk_len = 0, bulk_len = 1, tokens = [],
            commands = [[''$'']]\<rparr>, [], 12)"
  by (simp add: well_formed_def encode_command_def encode_bulk_def dec.simps digit_char_def
        decoder_defs CRLF_def CR_def LF_def)

text \<open>
  C3, amended. The bytes of any sequence of well-formed commands that have at least one
  element each, cut into chunks at any places and delivered chunk by chunk to successive
  runs of the decoder, leave the decoder as a single run on the whole sequence does; and
  that run ends with the whole input consumed, no command in progress, and a batch that
  holds exactly the commands of the frames, in order, with their tokens.
\<close>

theorem chunk_boundary_independence:
  assumes "list_all well_formed cmds"
    and "[] \<notin> set cmds"
    and "concat chunks = concat (map encode_command cmds)"
  shows "feed (Inr (Request_init, [], inbound)) chunks =
           Tokenize (Request_init, concat chunks, inbound)
         \<and> (\<exists>r n. Tokenize (Request_init, concat chunks, inbound) = Inr (r, [], n)
                \<and> commands r = cmds \<and> tokens r = [] \<and> state r = ArrayLen)"
proof -
  have init: "state Request_init = ArrayLen" "tokens Request_init = []"
    "commands Request_init = []"
    by (simp_all add: Request_init_def)
  from Tokenize_batch [OF init(1) init(2) assms(1) assms(2), of "[]" inbound]
  obtain r n where
    run: "Tokenize (Request_init, concat (map encode_command cmds), inbound) = Tokenize (r, [], n)"
    and r: "state r = ArrayLen" "tokens r = []" "commands r = commands Request_init @ cmds"
    by auto
  from r(1) have "Tokenize (r, [], n) = Inr (r, [], n)"
    by (rule Tokenize_ArrayLen_empty)
  with run r init(3) assms(3)
  have "\<exists>r n. Tokenize (Request_init, concat chunks, inbound) = Inr (r, [], n)
          \<and> commands r = cmds \<and> tokens r = [] \<and> state r = ArrayLen"
    by auto
  then show ?thesis
    by (simp add: feed_init)
qed

theorem chunk_boundary_independence_witness:
  "feed (Inr (Request_init, [], 0))
     [''*2'' @ CRLF @ ''$3'' @ CRLF @ ''GE'', ''T'' @ CRLF @ ''$3'' @ [CR],
      [LF] @ ''foo'' @ CRLF @ ''*1'' @ CRLF @ ''$4'' @ CRLF @ ''PING'' @ CRLF] =
   Inr (\<lparr>state = ArrayLen, multi_bulk_len = 0, bulk_len = 4, tokens = [],
          commands = [[''GET'', ''foo''], [''PING'']]\<rparr>, [], 26)"
proof -
  let ?chunks = "[''*2'' @ CRLF @ ''$3'' @ CRLF @ ''GE'', ''T'' @ CRLF @ ''$3'' @ [CR],
      [LF] @ ''foo'' @ CRLF @ ''*1'' @ CRLF @ ''$4'' @ CRLF @ ''PING'' @ CRLF]"
  let ?cmds = "[[''GET'', ''foo''], [''PING'']]"
  have wf: "list_all well_formed ?cmds"
    by (simp add: well_formed_def)
  have ne: "[] \<notin> set ?cmds"
    by simp
  have bytes: "concat ?chunks = concat (map encode_command ?cmds)"
    by (simp add: encode_command_def encode_bulk_def dec.simps digit_char_def CRLF_def)
  have "feed (Inr (Request_init, [], 0)) ?chunks = Tokenize (Request_init, concat ?chunks, 0)"
    using chunk_boundary_independence [OF wf ne bytes, of 0] by blast
  also have "\<dots> = Inr (\<lparr>state = ArrayLen, multi_bulk_len = 0, bulk_len = 4, tokens = [],
          commands = ?cmds\<rparr>, [], 26)"
    by (simp add: decoder_defs CRLF_def CR_def LF_def)
  finally show ?thesis .
qed

subsection \<open>The invariant of the decoder\<close>

lemma sint_minus_one:
  fixes w :: "64 word"
  assumes "sint w \<noteq> - (2 ^ 63)"
  shows "sint (w - 1) = sint w - 1"
proof -
  have "- (2 ^ 63) \<le> sint w" "sint w < 2 ^ 63"
    using sint_ge [of w] sint_lt [of w] by simp_all
  with assms have "- (2 ^ 63) \<le> sint w - 1" "sint w - 1 < 2 ^ 63"
    by simp_all
  then have "signed_take_bit 63 (sint w - 1) = sint w - 1"
    by (rule signed_take_bit_int_eq_self)
  then show ?thesis
    by (simp add: sint_word_ariths)
qed

lemma decoding_facts:
  assumes "decoding d (r, input, inbound)"
  shows "(state r = ArrayLen \<longrightarrow> tokens r = [])
         \<and> (state r \<noteq> ArrayLen \<longrightarrow>
              word_of_nat (length (tokens r)) + multi_bulk_len r = d
              \<and> (tokens r \<noteq> [] \<longrightarrow> 0 < sint (multi_bulk_len r))
              \<and> (sint d \<noteq> - (2 ^ 63) \<longrightarrow>
                   int (length (tokens r)) + sint (multi_bulk_len r) = sint d))"
  using assms
proof (induction d "(r, input, inbound)" arbitrary: r input inbound rule: decoding.induct)
  case (start d input inbound)
  show ?case by (simp add: Request_init_def)
next
  case (iteration d r input inbound r' input' inbound')
  note IH = iteration.hyps(2) and step = iteration.hyps(3)
  show ?case
  proof (cases "state r")
    case ArrayLen
    with IH have "tokens r = []"
      by simp
    with ArrayLen step show ?thesis
      by (auto simp: Tokenize_step_def split: option.splits)
  next
    case BulkLen
    with IH step show ?thesis
      by (auto simp: Tokenize_step_def split: option.splits if_splits)
  next
    case BulkData
    show ?thesis
    proof (cases "sint (multi_bulk_len r - 1) \<le> 0")
      case True
      with BulkData step show ?thesis
        by (auto simp: Tokenize_step_def Let_def split: if_splits)
    next
      case False
      with BulkData step have r': "state r' = BulkLen"
        "tokens r' = tokens r @ [take (unat (bulk_len r)) input]"
        "multi_bulk_len r' = multi_bulk_len r - 1"
        by (auto simp: Tokenize_step_def Let_def split: if_splits)
      from IH BulkData have word: "word_of_nat (length (tokens r)) + multi_bulk_len r = d"
        and pos: "tokens r \<noteq> [] \<longrightarrow> 0 < sint (multi_bulk_len r)"
        and int: "sint d \<noteq> - (2 ^ 63) \<longrightarrow>
                    int (length (tokens r)) + sint (multi_bulk_len r) = sint d"
        by simp_all
      have "int (length (tokens r')) + sint (multi_bulk_len r') = sint d"
        if d: "sint d \<noteq> - (2 ^ 63)"
      proof -
        have "sint (multi_bulk_len r) \<noteq> - (2 ^ 63)"
        proof (cases "tokens r = []")
          case True
          with int d show ?thesis by simp
        next
          case False
          with pos show ?thesis by simp
        qed
        then have "sint (multi_bulk_len r - 1) = sint (multi_bulk_len r) - 1"
          by (rule sint_minus_one)
        with int d r' show ?thesis
          by simp
      qed
      with r' False word BulkData show ?thesis
        by simp
    qed
  qed
next
  case (arrival d r input inbound extra)
  then show ?case by simp
next
  case (dispatch d r input inbound inbound')
  then show ?case by simp
qed

lemma decoding_Tokenize:
  "decoding d (r, input, inbound) \<Longrightarrow>
   Tokenize (r, input, inbound) = Inr (r', input', inbound') \<Longrightarrow>
   \<exists>d'. decoding d' (r', input', inbound')"
proof (induction "(r, input, inbound)" arbitrary: d r input inbound rule: Tokenize.induct)
  case 1
  show ?case
  proof (cases "Tokenize_step (r, input, inbound)")
    case Suspend
    with "1.prems" show ?thesis
      by (auto simp: Tokenize.simps [of "(r, input, inbound)"])
  next
    case (Continue c1)
    obtain r1 input1 inbound1 where c1: "c1 = (r1, input1, inbound1)"
      by (cases c1)
    from Continue c1
    have st: "Tokenize_step (r, input, inbound) = Continue (r1, input1, inbound1)"
      by simp
    have "decoding (if state r = ArrayLen then multi_bulk_len r1 else d) (r1, input1, inbound1)"
      by (rule decoding.iteration [OF "1.prems"(1) st])
    moreover from "1.prems"(2) Continue c1
    have "Tokenize (r1, input1, inbound1) = Inr (r', input', inbound')"
      by (simp add: Tokenize.simps [of "(r, input, inbound)"])
    ultimately show ?thesis
      using "1.hyps" [of r1 input1 inbound1] Continue c1 by blast
  next
    case (Fault e)
    with "1.prems" show ?thesis
      by (simp add: Tokenize.simps [of "(r, input, inbound)"])
  qed
qed

text \<open>
  C7. In every configuration that the decoder goes through, over any number of runs and
  deliveries, while a command is in progress (the state is not \<open>ArrayLen\<close>), the number
  of tokens assembled plus the pending element count is the count \<open>d\<close> that the array
  header of the command declared: as 64-bit values always, and as integers for every
  declared count but the least 64-bit one, where the decrement wraps around. A run that
  starts in the bulk-body state with fewer than \<open>bulk_len + 2\<close> bytes returns at once
  and leaves the decoder, the buffer and the byte counter as they were; and what a run
  returns is again such a configuration, so the next run goes on from there.
\<close>

theorem decoder_invariant:
  assumes "decoding d (r, input, inbound)"
  shows "(state r \<noteq> ArrayLen \<longrightarrow>
            word_of_nat (length (tokens r)) + multi_bulk_len r = d)
         \<and> (state r \<noteq> ArrayLen \<and> sint d \<noteq> - (2 ^ 63) \<longrightarrow>
            int (length (tokens r)) + sint (multi_bulk_len r) = sint d)
         \<and> (state r = BulkData \<and> length input < unat (bulk_len r + 2) \<longrightarrow>
            Tokenize (r, input, inbound) = Inr (r, input, inbound))
         \<and> (\<forall>r' input' inbound'.
              Tokenize (r, input, inbound) = Inr (r', input', inbound') \<longrightarrow>
              (\<exists>d'. decoding d' (r', input', inbound')))"
proof -
  have "Tokenize (r, input, inbound) = Inr (r, input, inbound)"
    if "state r = BulkData" "length input < unat (bulk_len r + 2)"
    using that by (intro Tokenize_Suspend) (simp add: Tokenize_step_def)
  with decoding_facts [OF assms] decoding_Tokenize [OF assms] show ?thesis
    by blast
qed

theorem decoder_invariant_witness:
  "word_of_nat (length [''GET'']) + (1 :: 64 word) = 2
   \<and> int (length [''GET'']) + sint (1 :: 64 word) = sint (2 :: 64 word)
   \<and> Tokenize (\<lparr>state = BulkData, multi_bulk_len = 1, bulk_len = 3, tokens = [''GET''],
                 commands = []\<rparr>, ''fo'', 11) =
     Inr (\<lparr>state = BulkData, multi_bulk_len = 1, bulk_len = 3, tokens = [''GET''],
            commands = []\<rparr>, ''fo'', 11)"
proof -
  let ?r1 = "\<lparr>state = BulkLen, multi_bulk_len = 2, bulk_len = 0, tokens = [], commands = []\<rparr>"
  let ?r2 = "\<lparr>state = BulkData, multi_bulk_len = 2, bulk_len = 3, tokens = [], commands = []\<rparr>"
  let ?r3 = "\<lparr>state = BulkLen, multi_bulk_len = 1, bulk_len = 3, tokens = [''GET''],
              commands = []\<rparr>"
  let ?r4 = "\<lparr>state = BulkData, multi_bulk_len = 1, bulk_len = 3, tokens = [''GET''],
              commands = []\<rparr>"
  let ?rest1 = "''$3'' @ CRLF @ ''GET'' @ CRLF @ ''$3'' @ CRLF @ ''fo''"
  have s1: "Tokenize_step (Request_init, ''*2'' @ CRLF @ ?rest1, 0) = Continue (?r1, ?rest1, 2)"
    by (simp add: decoder_defs CRLF_def CR_def LF_def)
  have s2: "Tokenize_step (?r1, ?rest1, 2) =
            Continue (?r2, ''GET'' @ CRLF @ ''$3'' @ CRLF @ ''fo'', 4)"
    by (simp add: decoder_defs CRLF_def CR_def LF_def)
  have s3: "Tokenize_step (?r2, ''GET'' @ CRLF @ ''$3'' @ CRLF @ ''fo'', 4) =
            Continue (?r3, ''$3'' @ CRLF @ ''fo'', 9)"
    by (simp add: decoder_defs CRLF_def CR_def LF_def)
  have s4: "Tokenize_step (?r3, ''$3'' @ CRLF @ ''fo'', 9) = Continue (?r4, ''fo'', 11)"
    by (simp add: decoder_defs CRLF_def CR_def LF_def)
  have "decoding 0 (Request_init, ''*2'' @ CRLF @ ?rest1, 0)"
    by (rule decoding.start)
  from decoding.iteration [OF this s1] have "decoding 2 (?r1, ?rest1, 2)"
    by (simp add: Request_init_def)
  from decoding.iteration [OF this s2]
  have "decoding 2 (?r2, ''GET'' @ CRLF @ ''$3'' @ CRLF @ ''fo'', 4)"
    by simp
  from decoding.iteration [OF this s3] have "decoding 2 (?r3, ''$3'' @ CRLF @ ''fo'', 9)"
    by simp
  from decoding.iteration [OF this s4] have "decoding 2 (?r4, ''fo'', 11)"
    by simp
  from decoder_invariant [OF this] show ?thesis
    by simp
qed

subsection \<open>Array headers that declare no element\<close>

text \<open>
  C2, as stated, fails: after the header \<open>*0\<close> the batch is empty and the decoder is in
  the bulk-header state, where it has returned for want of a line.
\<close>

theorem zero_count_counterexample:
  "Tokenize (Request_init, ''*0'' @ CRLF, 0) =
     Inr (\<lparr>state = BulkLen, multi_bulk_len = 0, bulk_len = 0, tokens = [], commands = []\<rparr>,
          [], 2)"
  by (simp add: decoder_defs CRLF_def CR_def LF_def)

text \<open>
  C2, amended. When the decoder reads an array header line whose count is at most 0 (an
  empty line counts as 0), the iteration emits no command: it stores the count and goes
  to the bulk-header state. If no bulk header line follows, the run returns there. If a
  bulk follows and the count is above the least 64-bit value, that one bulk completes
  the command, which has exactly this one token.
\<close>

theorem zero_count_header:
  assumes "state r = ArrayLen"
    and "evbuffer_readln input = Some (line, rest)"
    and "count = (if length line > 0 then strtoull (drop 1 line) else 0)"
    and "sint count \<le> 0"
    and "r1 = r\<lparr>multi_bulk_len := count, state := BulkLen\<rparr>"
  shows "Tokenize_step (r, input, n) = Continue (r1, rest, n + length line)
         \<and> commands r1 = commands r
         \<and> (evbuffer_readln rest = None \<longrightarrow>
              Tokenize (r, input, n) = Inr (r1, rest, n + length line))
         \<and> (\<forall>t rest'. rest = encode_bulk t @ rest' \<and> length t + 2 < 2 ^ 64
                \<and> - (2 ^ 63) < sint count \<longrightarrow>
              Tokenize (r, input, n) =
              Tokenize (r\<lparr>bulk_len := word_of_nat (length t), multi_bulk_len := count - 1,
                          state := ArrayLen, commands := commands r @ [tokens r @ [t]],
                          tokens := []\<rparr>,
                        rest', n + length line + (1 + length (dec (length t))) + (length t + 2)))"
proof -
  from assms have step: "Tokenize_step (r, input, n) = Continue (r1, rest, n + length line)"
    by (simp add: Tokenize_step_def)
  then have run: "Tokenize (r, input, n) = Tokenize (r1, rest, n + length line)"
    by (rule Tokenize_Continue)
  have r1: "state r1 = BulkLen" "multi_bulk_len r1 = count" "commands r1 = commands r"
    "tokens r1 = tokens r"
    using assms(5) by simp_all
  have wait: "Tokenize (r1, rest, n + length line) = Inr (r1, rest, n + length line)"
    if "evbuffer_readln rest = None"
    using that r1(1) by (intro Tokenize_Suspend) (simp add: Tokenize_step_def)
  have one: "Tokenize (r1, encode_bulk t @ rest', n + length line) =
             Tokenize (r\<lparr>bulk_len := word_of_nat (length t), multi_bulk_len := count - 1,
                          state := ArrayLen, commands := commands r @ [tokens r @ [t]],
                          tokens := []\<rparr>,
                       rest', n + length line + (1 + length (dec (length t))) + (length t + 2))"
    if t: "length t + 2 < 2 ^ 64" and count: "- (2 ^ 63) < sint count" for t rest'
  proof -
    from count have "sint (count - 1) = sint count - 1"
      by (intro sint_minus_one) simp
    with assms(4) have "sint (multi_bulk_len r1 - 1) \<le> 0"
      using r1(2) by simp
    with Tokenize_bulk [OF r1(1) t, of rest' "n + length line"] assms(5) show ?thesis
      by simp
  qed
  from step run r1(3) wait one show ?thesis
    by auto
qed

theorem zero_count_header_witness:
  "Tokenize (Request_init, ''*0'' @ CRLF @ ''$1'' @ CRLF @ ''a'' @ CRLF @ ''*1'' @ CRLF, 0) =
   Tokenize (\<lparr>state = ArrayLen, multi_bulk_len = - 1, bulk_len = 1, tokens = [],
               commands = [[''a'']]\<rparr>, ''*1'' @ CRLF, 7)"
proof -
  let ?rest = "''$1'' @ CRLF @ ''a'' @ CRLF @ ''*1'' @ CRLF"
  let ?count = "if length ''*0'' > 0 then strtoull (drop 1 ''*0'') else 0"
  have st: "state Request_init = ArrayLen"
    by (simp add: Request_init_def)
  have ln: "evbuffer_readln (''*0'' @ CRLF @ ?rest) = Some (''*0'', ?rest)"
    by (simp add: evbuffer_readln_def CRLF_def CR_def LF_def)
  have zero: "?count = 0"
    by (simp add: decoder_defs)
  then have count: "sint ?count \<le> 0"
    by simp
  have bulk: "?rest = encode_bulk ''a'' @ ''*1'' @ CRLF \<and> length ''a'' + 2 < 2 ^ 64
              \<and> - (2 ^ 63) < sint ?count"
    using zero by (simp add: encode_bulk_def dec.simps digit_char_def)
  note rule = zero_count_header [OF st ln refl count refl, of 0]
  from rule [THEN conjunct2, THEN conjunct2, THEN conjunct2, rule_format, OF bulk] zero
  show ?thesis
    by (simp add: Request_init_def dec.simps eval_nat_numeral)
qed

subsection \<open>The bytes accounted to the inbound traffic\<close>

lemma Tokenize_step_accounting:
  assumes "Tokenize_step (r, input, inbound) = Continue (r', input', inbound')"
  shows "(state r = BulkData \<longrightarrow> inbound' - inbound = length input - length input')
         \<and> (state r \<noteq> BulkData \<longrightarrow> inbound' - inbound + 2 = length input - length input')"
proof (cases "state r = BulkData")
  case True
  with assms show ?thesis
    by (auto simp: Tokenize_step_def Let_def split: if_splits)
next
  case False
  with assms obtain line where ln: "evbuffer_readln input = Some (line, input')"
    and n: "inbound' = inbound + length line"
    by (cases "state r") (auto simp: Tokenize_step_def split: option.splits if_splits)
  from ln have "length input' + length line + 2 = length input"
    by (rule evbuffer_readln_shorter)
  with n False show ?thesis
    by simp
qed

text \<open>
  C8 fails on the code. The frame \<open>*1 $1 a\<close> has 11 bytes and the run consumes them all,
  but 7 bytes are accounted: the length of a header line is counted without its two
  terminator bytes (\<open>len\<close> of \<open>evbuffer_readln\<close>), the bulk is counted with them.
\<close>

theorem inbound_bytes_undercounted:
  "length (''*1'' @ CRLF @ ''$1'' @ CRLF @ ''a'' @ CRLF) = 11
   \<and> Tokenize (Request_init, ''*1'' @ CRLF @ ''$1'' @ CRLF @ ''a'' @ CRLF, 0) =
     Inr (\<lparr>state = ArrayLen, multi_bulk_len = 0, bulk_len = 1, tokens = [],
            commands = [[''a'']]\<rparr>, [], 7)"
  by (simp add: decoder_defs CRLF_def CR_def LF_def)

subsection \<open>An empty bulk header line\<close>

lemma Tokenize_empty_bulk_header:
  assumes "state r = BulkLen" and "evbuffer_readln input = Some ([], rest)"
  shows "Tokenize (r, input, n) = Inl OutOfBoundsRead"
  using assms by (simp add: Tokenize.simps [of "(r, input, n)"] Tokenize_step_def)

text \<open>
  C10 fails on the code. After an array header, an empty line where the bulk header is
  expected is parsed from offset 1, which is past the end of the buffer that holds the
  line (one byte, the NUL): the bulk-header state has no guard like the one of the
  array-header state.
\<close>

theorem empty_bulk_header_out_of_bounds:
  "Tokenize (Request_init, ''*1'' @ CRLF @ CRLF, 0) = Inl OutOfBoundsRead"
  by (simp add: decoder_defs CRLF_def CR_def LF_def)

section \<open>Channel subscriptions\<close>

lemma SubscribeChannel_again:
  "channel \<in> set (subscribe_channels conn) \<Longrightarrow> SubscribeChannel channel (conn, svr) = (conn, svr)"
  by (simp add: SubscribeChannel_def)

lemma SubscribeChannel_distinct:
  "distinct (subscribe_channels conn) \<Longrightarrow>
   distinct (subscribe_channels (fst (SubscribeChannel channel (conn, svr))))"
  by (simp add: SubscribeChannel_def)

lemma UnSubscribeChannel_first_of_two:
  "UnSubscribeChannel ''a'' (demo_conn\<lparr>subscribe_channels := [''a'', ''b'']\<rparr>, demo_svr) =
     Inr (demo_conn\<lparr>subscribe_channels := [''b'']\<rparr>,
          demo_svr\<lparr>registry := [Unsubscribed ''a'' 7]\<rparr>)"
  by (simp add: UnSubscribeChannel_def UnSubscribe_loop.simps demo_conn_def demo_svr_def)

lemma UnSubscribe_loop_last:
  assumes "channel \<notin> set pre" and "i \<le> length pre"
    and "subscribe_channels conn = pre @ [channel]"
  shows "UnSubscribe_loop channel i (conn, svr) = Inl InvalidIterator"
  using assms(2)
proof (induction "length pre - i" arbitrary: i)
  case 0
  then have i: "i = length pre"
    by simp
  have "UnSubscribe_loop channel (Suc (length pre))
          (conn\<lparr>subscribe_channels := pre\<rparr>,
           svr\<lparr>registry := registry svr @ [Unsubscribed channel (fd conn)]\<rparr>) =
        Inl InvalidIterator"
    by (simp add: UnSubscribe_loop.simps)
  with i assms(3) show ?case
    by (simp add: UnSubscribe_loop.simps [of channel "length pre" "(conn, svr)"])
next
  case (Suc k)
  then have i: "i < length pre" and k: "k = length pre - Suc i"
    by simp_all
  from i assms(1) have "(pre @ [channel]) ! i \<noteq> channel"
    by (auto simp: nth_append)
  with i assms(3) have "UnSubscribe_loop channel i (conn, svr) =
                        UnSubscribe_loop channel (Suc i) (conn, svr)"
    by (simp add: UnSubscribe_loop.simps [of channel i "(conn, svr)"])
  also have "\<dots> = Inl InvalidIterator"
    using Suc.hyps(1) [OF k] i by simp
  finally show ?case .
qed

lemma UnSubscribeChannel_last:
  "distinct (subscribe_channels conn) \<Longrightarrow> subscribe_channels conn = pre @ [channel] \<Longrightarrow>
   UnSubscribeChannel channel (conn, svr) = Inl InvalidIterator"
  by (simp add: UnSubscribeChannel_def UnSubscribe_loop_last [of channel pre 0])

text \<open>
  C9 fails on the code in its second half. A session subscribed to one channel
  unsubscribes from it: the loop erases the entry and notifies the registry, then
  advances the iterator, which is now one past the end; the test \<open>iter != end()\<close> holds
  and the loop reads through it.
\<close>

theorem unsubscribe_last_channel:
  "UnSubscribeChannel ''news'' (demo_conn\<lparr>subscribe_channels := [''news'']\<rparr>, demo_svr) =
     Inl InvalidIterator"
  by (simp add: UnSubscribeChannel_def UnSubscribe_loop.simps)

section \<open>The loading state\<close>

lemma ExecuteCommands_loading:
  assumes "IsLoading svr" and "commands (req conn) \<noteq> []"
  shows "ExecuteCommands env (conn, svr) =
           Inr (conn\<lparr>Output := Output conn @ [Error ''replication in progress'']\<rparr>,
                svr\<lparr>outbound_bytes :=
                      outbound_bytes svr + length (Error ''replication in progress'')\<rparr>)"
  using assms by (simp add: ExecuteCommands_def Reply_def)

text \<open>
  C1 fails on the code in its second half. Three pipelined commands arrive while the
  server is loading: one reply, no execution, but the three commands stay queued (the
  early return skips the \<open>clear\<close>). When the load is over and one more command arrives,
  four commands are executed.
\<close>

theorem loading_batch_not_discarded:
  "observe (receive demo_env (get_a @ get_a @ get_a) (demo_conn, demo_svr\<lparr>IsLoading := True\<rparr>)) =
     Inr ([Error ''replication in progress''], [],
          [[''GET'', ''a''], [''GET'', ''a''], [''GET'', ''a'']])
   \<and> observe (ExecuteCommands demo_env
        (demo_conn\<lparr>req := Request_init\<lparr>commands := [[''GET'', ''a''], [''GET'', ''a'']]\<rparr>\<rparr>, demo_svr)) =
     Inr ([''+OK'' @ CRLF, ''+OK'' @ CRLF], [''get'', ''get''], [])
   \<and> observe (receive demo_env get_a
        (case after (receive demo_env (get_a @ get_a @ get_a)
                 (demo_conn, demo_svr\<lparr>IsLoading := True\<rparr>)) (demo_conn, demo_svr) of
           (conn, svr) \<Rightarrow> (conn, svr\<lparr>IsLoading := False\<rparr>))) =
     Inr ([Error ''replication in progress'', ''+OK'' @ CRLF, ''+OK'' @ CRLF, ''+OK'' @ CRLF,
           ''+OK'' @ CRLF],
          [''get'', ''get'', ''get'', ''get''], [])"
  by (simp add: observe_def after_def receive_def OnRead_def ExecuteCommands_def
        ExecuteCommand_def ParseAndRun_def RunCommand_def arity_mismatch_def
        decoder_defs demo_defs)

end
